theory Spec2Isabelle
  imports Complex_Main "HOL-Library.Sublist"
begin

section \<open>Python values and strings\<close>

text \<open>
  A Python \<^verbatim>\<open>str\<close> is a sequence of Unicode code points; a code point is a natural
  number. \<open>str\<close> turns an ASCII literal into such a sequence, so that the literals of the
  source can be written as they are.
\<close>

type_synonym pystr = "nat list"

definition str :: "string \<Rightarrow> pystr" where
  "str s = map of_char s"

text \<open>
  \<^verbatim>\<open>str.isspace\<close> on one code point: the characters CPython treats as whitespace
  (tab to carriage return, the separators 0x1C to 0x1F, space, NEL, no-break space and the
  Unicode space separators).
\<close>

definition isspace :: "nat \<Rightarrow> bool" where
  "isspace c \<longleftrightarrow>
     (9 \<le> c \<and> c \<le> 13) \<or> (28 \<le> c \<and> c \<le> 32) \<or> c = 133 \<or> c = 160 \<or> c = 5760 \<or>
     (8192 \<le> c \<and> c \<le> 8202) \<or> c = 8232 \<or> c = 8233 \<or> c = 8239 \<or> c = 8287 \<or> c = 12288"

text \<open>\<^verbatim>\<open>s.strip()\<close>: whitespace removed from both ends.\<close>

definition strip :: "pystr \<Rightarrow> pystr" where
  "strip s = rev (dropWhile isspace (rev (dropWhile isspace s)))"

text \<open>\<^verbatim>\<open>sep.join(xs)\<close>.\<close>

fun join :: "pystr \<Rightarrow> pystr list \<Rightarrow> pystr" where
  "join sep [] = []"
| "join sep [x] = x"
| "join sep (x # y # ys) = x @ sep @ join sep (y # ys)"

text \<open>
  \<^verbatim>\<open>s.lower()\<close>, on the ASCII letters; other code points are left as they are. (No code
  point outside ASCII lowers to one of the letters of the extensions tested below, so
  the extension tests decide as Python's do.)
\<close>

definition lower :: "pystr \<Rightarrow> pystr" where
  "lower s = map (\<lambda>c. if 65 \<le> c \<and> c \<le> 90 then c + 32 else c) s"


text \<open>
  The values \<^verbatim>\<open>extract_texts_from_predict\<close> tells apart with \<^verbatim>\<open>isinstance\<close>:
  strings, numbers (\<^verbatim>\<open>bool\<close> is a subclass of \<^verbatim>\<open>int\<close>), lists and tuples, dicts (in
  insertion order, as \<^verbatim>\<open>dict.values()\<close> iterates them), and everything else (\<^verbatim>\<open>None\<close>,
  or an object of another class, named by its type). The payload of a float is never
  inspected.
\<close>

datatype seqkind = PyList | PyTuple

datatype pyval =
    PStr pystr
  | PInt int
  | PFloat real
  | PBool bool
  | PNone
  | PSeq seqkind "pyval list"
  | PDict "(pyval \<times> pyval) list"
  | PObj string

text \<open>\<^verbatim>\<open>isinstance(v, str)\<close>, \<^verbatim>\<open>isinstance(v, (int, float))\<close>, \<^verbatim>\<open>isinstance(v, (list, tuple))\<close>.\<close>

fun is_str :: "pyval \<Rightarrow> bool" where
  "is_str (PStr s) = True"
| "is_str v = False"

fun is_number :: "pyval \<Rightarrow> bool" where
  "is_number (PInt n) = True"
| "is_number (PFloat x) = True"
| "is_number (PBool b) = True"
| "is_number v = False"

fun is_seq :: "pyval \<Rightarrow> bool" where
  "is_seq (PSeq k xs) = True"
| "is_seq v = False"

text \<open>The elements of a list or tuple, and the text of a string (used under the tests above).\<close>

fun items :: "pyval \<Rightarrow> pyval list" where
  "items (PSeq k xs) = xs"
| "items v = []"

fun text_of :: "pyval \<Rightarrow> pystr" where
  "text_of (PStr s) = s"
| "text_of v = []"

section \<open>\<^verbatim>\<open>extract_texts_from_predict\<close> (app.py)\<close>

text \<open>\<^verbatim>\<open>if s.strip(): texts.append(s.strip())\<close>, on the list \<open>texts\<close> of the enclosing call.\<close>

definition append_stripped :: "pystr \<Rightarrow> pystr list \<Rightarrow> pystr list" where
  "append_stripped s texts = (if strip s \<noteq> [] then texts @ [strip s] else texts)"

text \<open>
  The inner function \<^verbatim>\<open>rec\<close>. It appends to the list \<^verbatim>\<open>texts\<close> of the enclosing call:
  the model takes the list and returns it updated. A \<^verbatim>\<open>for\<close> loop over the children is a
  \<open>fold\<close>. The branches are in the order of the source: the pair \<^verbatim>\<open>(text, confidence)\<close>;
  then, for a sequence of at least two elements whose second element \<^verbatim>\<open>sec\<close> is a sequence,
  either the first element of \<^verbatim>\<open>sec\<close> when it is a string, or a walk of the elements of
  \<^verbatim>\<open>sec\<close>; otherwise a walk of all the children.
\<close>

function rec :: "pyval \<Rightarrow> pystr list \<Rightarrow> pystr list" where
  "rec (PStr s) texts = append_stripped s texts"
| "rec (PInt n) texts = texts"
| "rec (PFloat x) texts = texts"
| "rec (PBool b) texts = texts"
| "rec (PSeq k obj) texts =
     (if length obj = 2 \<and> is_str (obj ! 0) \<and> is_number (obj ! 1) then
        append_stripped (text_of (obj ! 0)) texts
      else if length obj \<ge> 2 \<and> is_seq (obj ! 1) then
        (let sec = items (obj ! 1) in
         if length sec \<ge> 1 \<and> is_str (sec ! 0) then
           append_stripped (text_of (sec ! 0)) texts
         else fold rec sec texts)
      else fold rec obj texts)"
| "rec (PDict kvs) texts = fold rec (map snd kvs) texts"
| "rec PNone texts = texts"
| "rec (PObj t) texts = texts"
  by pat_completeness auto
termination
proof (relation "measure (\<lambda>(obj, texts). size obj)", goal_cases)
  case 1
  show ?case by simp
next
  case (2 k obj texts sec item acc)
  have member: "size x < Suc (size_list size xs)" if "x \<in> set xs" for x :: pyval and xs
    using that by (induction xs) auto
  have "size_list size (items v) < Suc (size v)" for v
    by (cases v) auto
  then have "size_list size (items (obj ! 1)) < Suc (size (obj ! 1))" .
  moreover have "obj ! 1 \<in> set obj"
    using 2 by (simp add: not_less)
  then have "size (obj ! 1) < Suc (size_list size obj)"
    by (rule member)
  moreover have "size item < Suc (size_list size (items (obj ! 1)))"
    using 2 by (simp add: member)
  ultimately show ?case by simp
next
  case (3 k obj texts item acc)
  have "size x < Suc (size_list size xs)" if "x \<in> set xs" for x :: pyval and xs
    using that by (induction xs) auto
  with 3 show ?case by fastforce
next
  case (4 kvs texts item acc)
  have "size v < Suc (size_list (size_prod size size) xs)"
    if "(k, v) \<in> set xs" for k v :: pyval and xs
    using that by (induction xs) auto
  with 4 show ?case by fastforce
qed

text \<open>\<^verbatim>\<open>texts = []; rec(result); return [t for t in texts if t]\<close>.\<close>

definition extract_texts_from_predict :: "pyval \<Rightarrow> pystr list" where
  "extract_texts_from_predict result = filter (\<lambda>t. t \<noteq> []) (rec result [])"

text \<open>
  The string leaves of a value in the order of a depth-first, left-to-right walk through
  list and tuple elements and dict values.
\<close>

fun leaves :: "pyval \<Rightarrow> pystr list" where
  "leaves (PStr s) = [s]"
| "leaves (PSeq k xs) = concat (map leaves xs)"
| "leaves (PDict kvs) = concat (map (\<lambda>kv. leaves (snd kv)) kvs)"
| "leaves v = []"

text \<open>The nesting depth of a value: containers inside containers.\<close>

fun depth :: "pyval \<Rightarrow> nat" where
  "depth (PSeq k xs) = Suc (fold max (map depth xs) 0)"
| "depth (PDict kvs) = Suc (fold max (map (\<lambda>kv. depth (snd kv)) kvs) 0)"
| "depth v = 0"

text \<open>
  \<^verbatim>\<open>rec\<close> again, with a bound on the depth of the call stack: every call takes one unit of
  fuel and hands the rest to the calls it makes; \<open>None\<close> is a call that found none left.
  \<open>for_each\<close> is the \<^verbatim>\<open>for\<close> loop, stopping at the first call that does not return.
\<close>

definition for_each :: "('a \<Rightarrow> 's \<Rightarrow> 's option) \<Rightarrow> 'a list \<Rightarrow> 's \<Rightarrow> 's option" where
  "for_each f xs s = fold (\<lambda>x acc. Option.bind acc (f x)) xs (Some s)"

fun rec_fuel :: "nat \<Rightarrow> pyval \<Rightarrow> pystr list \<Rightarrow> pystr list option" where
  "rec_fuel 0 obj texts = None"
| "rec_fuel (Suc n) (PStr s) texts = Some (append_stripped s texts)"
| "rec_fuel (Suc n) (PSeq k obj) texts =
     (if length obj = 2 \<and> is_str (obj ! 0) \<and> is_number (obj ! 1) then
        Some (append_stripped (text_of (obj ! 0)) texts)
      else if length obj \<ge> 2 \<and> is_seq (obj ! 1) then
        (let sec = items (obj ! 1) in
         if length sec \<ge> 1 \<and> is_str (sec ! 0) then
           Some (append_stripped (text_of (sec ! 0)) texts)
         else for_each (rec_fuel n) sec texts)
      else for_each (rec_fuel n) obj texts)"
| "rec_fuel (Suc n) (PDict kvs) texts = for_each (rec_fuel n) (map snd kvs) texts"
| "rec_fuel (Suc n) v texts = Some texts"

section \<open>Paths, files and exceptions\<close>

text \<open>
  An exception is a value; \<open>str_exn\<close> is \<^verbatim>\<open>str(e)\<close>. \<open>LibraryError\<close> is an exception
  raised inside a library call (the OCR engine, \<^verbatim>\<open>json.dumps\<close>, the image decoder), with
  its message. All of them are subclasses of \<^verbatim>\<open>Exception\<close>.
\<close>

datatype exn = FileNotFoundError pystr | ValueError pystr | LibraryError pystr

fun str_exn :: "exn \<Rightarrow> pystr" where
  "str_exn (FileNotFoundError m) = m"
| "str_exn (ValueError m) = m"
| "str_exn (LibraryError m) = m"

text \<open>
  A path is its text, with \<^verbatim>\<open>/\<close> (code point 47) between components. The file system is
  the map from the paths of the regular files to their contents; directories are not
  modelled (\<^verbatim>\<open>mkdir(parents=True, exist_ok=True)\<close> changes no file). A text written
  with \<^verbatim>\<open>write_text\<close> or through the file of the batch script is stored; whether
  \<^verbatim>\<open>file.save\<close> of an upload fails is for the environment to say.
\<close>

type_synonym path = pystr

type_synonym filesystem = "path \<rightharpoonup> nat list"

definition path_exists :: "filesystem \<Rightarrow> path \<Rightarrow> bool" where
  "path_exists fs p \<longleftrightarrow> fs p \<noteq> None"

text \<open>\<^verbatim>\<open>Path(p).name\<close>: the last component.\<close>

definition path_name :: "path \<Rightarrow> pystr" where
  "path_name p = rev (takeWhile (\<lambda>c. c \<noteq> 47) (rev p))"

text \<open>
  \<^verbatim>\<open>Path(p).suffix\<close>: with \<^verbatim>\<open>i = name.rfind('.')\<close>, the text \<^verbatim>\<open>name[i:]\<close> when
  \<^verbatim>\<open>0 < i < len(name) - 1\<close>, and the empty string otherwise (46 is the dot).
\<close>

definition path_suffix :: "path \<Rightarrow> pystr" where
  "path_suffix p =
     (let name = path_name p; ext = rev (takeWhile (\<lambda>c. c \<noteq> 46) (rev name))
      in if 46 \<in> set name \<and> ext \<noteq> [] \<and> length ext + 1 < length name then 46 # ext else [])"

text \<open>
  \<^verbatim>\<open>Path(p).with_suffix(sfx)\<close> for a suffix that starts with a dot: \<^verbatim>\<open>ValueError\<close> on an
  empty name (its message names the path), otherwise the old suffix, if any, replaced by
  the new one.
\<close>

definition with_suffix :: "path \<Rightarrow> pystr \<Rightarrow> exn + path" where
  "with_suffix p sfx =
     (if path_name p = [] then Inl (ValueError (p @ str '' has an empty name''))
      else Inr (take (length p - length (path_suffix p)) p @ sfx))"

text \<open>\<^verbatim>\<open>Path(d) / f\<close>: an absolute \<open>f\<close> replaces \<open>d\<close>, an empty one leaves it.\<close>

definition path_join :: "path \<Rightarrow> pystr \<Rightarrow> path" where
  "path_join d f = (if f = [] then d else if hd f = 47 then f else d @ [47] @ f)"

section \<open>The upload service (app.py)\<close>

definition ALLOWED_EXTENSIONS :: "pystr set" where
  "ALLOWED_EXTENSIONS =
     {str ''.png'', str ''.jpg'', str ''.jpeg'', str ''.tiff'', str ''.bmp'', str ''.gif''}"

definition allowed_filename :: "pystr \<Rightarrow> bool" where
  "allowed_filename filename \<longleftrightarrow> lower (path_suffix filename) \<in> ALLOWED_EXTENSIONS"

text \<open>
  What the service takes from outside this repository: the directory of the script,
  werkzeug's \<^verbatim>\<open>secure_filename\<close>, the OCR engine's \<^verbatim>\<open>predict\<close> (it reads the image from
  the file system and returns a value or raises), \<^verbatim>\<open>json.dumps\<close> with the arguments of
  the source (it raises on a value it cannot serialise), the text of
  \<^verbatim>\<open>{ALLOWED_EXTENSIONS}\<close> in an f-string (a set prints in no fixed order), and whether
  \<^verbatim>\<open>file.save\<close> fails: \<open>None\<close> when it writes the file, or the exception it raises with
  the file system it leaves behind.
\<close>

record env =
  BASE_DIR :: path
  secure_filename :: "pystr \<Rightarrow> pystr"
  predict :: "filesystem \<Rightarrow> path \<Rightarrow> exn + pyval"
  json_dumps :: "pyval \<Rightarrow> exn + pystr"
  allowed_repr :: pystr
  file_save :: "filesystem \<Rightarrow> path \<Rightarrow> nat list \<Rightarrow> (exn \<times> filesystem) option"

definition MAX_CONTENT_LENGTH :: nat where
  "MAX_CONTENT_LENGTH = 16 * 1024 * 1024"

definition IMAGES_DIR :: "env \<Rightarrow> path" where
  "IMAGES_DIR e = path_join (BASE_DIR e) (str ''output'')"

definition debug_header :: pystr where
  "debug_header =
     str ''# No text extracted by parser. Raw predict() output below (JSON-ish):'' @ [10, 10]"

text \<open>
  \<^verbatim>\<open>ocr_image_to_txt(ocr, image_path, out_path=None)\<close>. It returns the path written and
  the texts, with the file system after the write, or the exception it raised; nothing is
  written before a raise, so the file system is then the one it was called in.
\<close>

definition ocr_image_to_txt ::
  "env \<Rightarrow> filesystem \<Rightarrow> path \<Rightarrow> path option \<Rightarrow> exn + ((path \<times> pystr list) \<times> filesystem)" where
  "ocr_image_to_txt e fs image_path out_path =
     (if \<not> path_exists fs image_path then
        Inl (FileNotFoundError (str ''Image not found: '' @ image_path))
      else
        case predict e fs image_path of
          Inl ex \<Rightarrow> Inl ex
        | Inr result \<Rightarrow>
            let texts = extract_texts_from_predict result in
            case (case out_path of
                    None \<Rightarrow> with_suffix image_path (str ''.txt'')
                  | Some p \<Rightarrow> Inr p) of
              Inl ex \<Rightarrow> Inl ex
            | Inr out \<Rightarrow>
                if texts = [] then
                  (case json_dumps e result of
                     Inl ex \<Rightarrow> Inl ex
                   | Inr dump \<Rightarrow> Inr ((out, []), fs(out \<mapsto> debug_header @ dump)))
                else Inr ((out, texts), fs(out \<mapsto> join [10] texts)))"

text \<open>
  An uploaded file (werkzeug's \<^verbatim>\<open>FileStorage\<close>); a request, with the length of its
  body and \<^verbatim>\<open>request.files\<close> as a map from field names; and how a view function ends: it
  returns a body with a status, or an \<^verbatim>\<open>HTTPException\<close> with a status code leaves it
  (\<^verbatim>\<open>abort(code)\<close>, or werkzeug's \<^verbatim>\<open>RequestEntityTooLarge\<close>), or another exception
  leaves it uncaught.
\<close>

record upload =
  filename :: pystr
  content :: "nat list"

record request =
  content_length :: nat
  files :: "pystr \<rightharpoonup> upload"

datatype json = JStr pystr | JInt int

datatype body =
    JsonBody "(string \<times> json) list"
  | Attachment pystr "nat list"
  | DefaultErrorPage

datatype outcome = Response body nat | Abort nat | Uncaught exn

definition health :: outcome where
  "health = Response (JsonBody [(''status'', JStr (str ''ok''))]) 200"

definition no_text_warning :: pystr where
  "no_text_warning =
     str ''No text extracted '' @ [8212] @ str '' debug dump saved in txt file.''"

text \<open>
  \<^verbatim>\<open>upload_file()\<close>, on the request and the file system. It returns how the view
  function ends and the file system it leaves. The application sets
  \<^verbatim>\<open>MAX_CONTENT_LENGTH\<close>, so the first access to \<^verbatim>\<open>request.files\<close> raises
  \<^verbatim>\<open>RequestEntityTooLarge\<close> (status 413) on a longer body. \<^verbatim>\<open>file.save\<close> stands before
  the \<^verbatim>\<open>try\<close>: an exception it raises is not caught.
\<close>

definition upload_file ::
  "env \<Rightarrow> filesystem \<Rightarrow> request \<Rightarrow> outcome \<times> filesystem" where
  "upload_file e fs req =
     (if content_length req > MAX_CONTENT_LENGTH then (Abort 413, fs)
      else
        case files req (str ''file'') of
          None \<Rightarrow>
            (Response (JsonBody [(''error'', JStr (str ''no file part in request''))]) 400, fs)
        | Some file \<Rightarrow>
            if filename file = [] then
              (Response (JsonBody [(''error'', JStr (str ''no selected file''))]) 400, fs)
            else
              let name = secure_filename e (filename file) in
              if \<not> allowed_filename name then
                (Response (JsonBody
                   [(''error'',
                     JStr (str ''file extension not allowed. Allowed: '' @ allowed_repr e))])
                   400, fs)
              else
                let saved_path = path_join (IMAGES_DIR e) name in
                case file_save e fs saved_path (content file) of
                  Some (ex, fs_left) \<Rightarrow> (Uncaught ex, fs_left)
                | None \<Rightarrow>
                    let fs1 = fs(saved_path \<mapsto> content file)
                    in case ocr_image_to_txt e fs1 saved_path None of
                         Inl ex \<Rightarrow>
                           (Response (JsonBody
                              [(''error'', JStr (str ''ocr_failed'')),
                               (''detail'', JStr (str_exn ex))])
                              500, fs1)
                       | Inr ((out_txt_path, texts), fs2) \<Rightarrow>
                           let resp =
                                 [(''image'', JStr saved_path),
                                  (''txt_file'', JStr out_txt_path),
                                  (''text_lines_count'', JInt (int (length texts))),
                                  (''text_preview'', JStr (join [10] (take 20 texts)))];
                               resp' = (if texts = []
                                        then resp @ [(''warning'', JStr no_text_warning)]
                                        else resp)
                           in (Response (JsonBody resp') 201, fs2))"



text \<open>
  What Flask sends for an outcome. app.py registers no error handler, so an
  \<^verbatim>\<open>HTTPException\<close> is sent as werkzeug renders it, its status code with the default
  error page, an HTML document; and an uncaught exception is answered with status 500 and
  an HTML page as well.
\<close>

fun flask_response :: "outcome \<Rightarrow> nat \<times> body" where
  "flask_response (Response b status) = (status, b)"
| "flask_response (Abort code) = (code, DefaultErrorPage)"
| "flask_response (Uncaught ex) = (500, DefaultErrorPage)"

text \<open>A JSON body with an \<^verbatim>\<open>error\<close> key.\<close>

fun json_error_body :: "body \<Rightarrow> bool" where
  "json_error_body (JsonBody kvs) = (''error'' \<in> fst ` set kvs)"
| "json_error_body b = False"

section \<open>The batch script (main.py)\<close>








section \<open>Notions used in the statements and proofs\<close>

text \<open>What a call of \<^verbatim>\<open>rec\<close> appends, seen from an empty list.\<close>

definition emitted :: "pyval \<Rightarrow> pystr list" where
  "emitted obj = rec obj []"

text \<open>The three tests of the sequence branch of \<^verbatim>\<open>rec\<close>, named.\<close>

definition is_pair :: "pyval list \<Rightarrow> bool" where
  "is_pair obj \<longleftrightarrow> length obj = 2 \<and> is_str (obj ! 0) \<and> is_number (obj ! 1)"

definition has_seq_second :: "pyval list \<Rightarrow> bool" where
  "has_seq_second obj \<longleftrightarrow> 2 \<le> length obj \<and> is_seq (obj ! 1)"

definition starts_with_str :: "pyval list \<Rightarrow> bool" where
  "starts_with_str sec \<longleftrightarrow> 1 \<le> length sec \<and> is_str (sec ! 0)"

text \<open>The leaves of a value, stripped, without those that strip to the empty string.\<close>

definition stripped_leaves :: "pyval \<Rightarrow> pystr list" where
  "stripped_leaves obj = filter (\<lambda>t. t \<noteq> []) (map strip (leaves obj))"

section \<open>Sample inputs\<close>

text \<open>A result in the shape the OCR engine returns: recognised texts and their scores.\<close>

definition sample_result :: pyval where
  "sample_result =
     PDict [(PStr (str ''rec_texts''),
               PSeq PyList [PStr (str '' Hello ''), PStr (str ''World'')]),
            (PStr (str ''rec_scores''), PSeq PyList [PFloat 0.9, PFloat 0.8])]"

text \<open>\<^verbatim>\<open>['a', ['b', 'c']]\<close>.\<close>

definition nested_sample :: pyval where
  "nested_sample =
     PSeq PyList [PStr (str ''a''), PSeq PyList [PStr (str ''b''), PStr (str ''c'')]]"

text \<open>
  An environment for the examples: the script lives in \<^verbatim>\<open>/srv/app\<close>, the names used
  are safe already (\<^verbatim>\<open>secure_filename\<close> leaves them as they are), the engine answers
  with the sample result, the dump of a value is some text, and \<^verbatim>\<open>file.save\<close> writes
  the file.
\<close>

definition sample_env :: env where
  "sample_env =
     \<lparr>BASE_DIR = str ''/srv/app'',
      secure_filename = (\<lambda>name. name),
      predict = (\<lambda>fs p. Inr sample_result),
      json_dumps = (\<lambda>v. Inr (str ''[]'')),
      allowed_repr = str ''{.png, .jpg, .jpeg, .tiff, .bmp, .gif}'',
      file_save = (\<lambda>fs p bytes. None)\<rparr>"

text \<open>The same with an engine that raises, and with an engine that finds no text.\<close>

definition failing_env :: env where
  "failing_env = sample_env\<lparr>predict := (\<lambda>fs p. Inl (LibraryError (str ''engine failure'')))\<rparr>"

definition blank_env :: env where
  "blank_env = sample_env\<lparr>predict := (\<lambda>fs p. Inr (PSeq PyList []))\<rparr>"

text \<open>
  An uploaded image \<^verbatim>\<open>scan.PNG\<close>, and requests: with it, without a file, with a file
  without a name, with a file named \<^verbatim>\<open>notes.exe\<close>, and one without a file whose body is
  one byte over the cap.
\<close>

definition sample_upload :: upload where
  "sample_upload = \<lparr>filename = str ''scan.PNG'', content = [137, 80, 78, 71]\<rparr>"

definition sample_request :: request where
  "sample_request = \<lparr>content_length = 2048, files = [str ''file'' \<mapsto> sample_upload]\<rparr>"

definition empty_request :: request where
  "empty_request = \<lparr>content_length = 0, files = Map.empty\<rparr>"

definition unnamed_request :: request where
  "unnamed_request =
     \<lparr>content_length = 512,
      files = [str ''file'' \<mapsto> \<lparr>filename = [], content = [1, 2, 3]\<rparr>]\<rparr>"

definition script_request :: request where
  "script_request =
     \<lparr>content_length = 512,
      files = [str ''file'' \<mapsto> \<lparr>filename = str ''notes.exe'', content = [77, 90]\<rparr>]\<rparr>"

definition oversize_request :: request where
  "oversize_request = \<lparr>content_length = 16777217, files = Map.empty\<rparr>"



section \<open>Stripping\<close>

lemma rstrip_hd:
  "rev (dropWhile P (rev xs)) \<noteq> [] \<Longrightarrow> hd (rev (dropWhile P (rev xs))) = hd xs"
  by (induction xs) (auto simp: dropWhile_append split: if_splits)

lemma dropWhile_all_iff: "dropWhile P xs = [] \<longleftrightarrow> (\<forall>x \<in> set xs. P x)"
  by (induction xs) auto

lemma dropWhile_fixed: "xs = [] \<or> \<not> P (hd xs) \<Longrightarrow> dropWhile P xs = xs"
  by (cases xs) auto

lemma strip_empty_iff: "strip s = [] \<longleftrightarrow> (\<forall>c \<in> set s. isspace c)"
proof -
  have "strip s = [] \<longleftrightarrow> (\<forall>c \<in> set (dropWhile isspace s). isspace c)"
    by (simp add: strip_def dropWhile_all_iff)
  also have "\<dots> \<longleftrightarrow> dropWhile isspace s = []"
  proof (cases "dropWhile isspace s")
    case Nil
    show ?thesis unfolding Nil by simp
  next
    case (Cons c cs)
    then have "\<not> isspace (hd (dropWhile isspace s))"
      using hd_dropWhile [of isspace s] by simp
    with Cons show ?thesis by auto
  qed
  also have "\<dots> \<longleftrightarrow> (\<forall>c \<in> set s. isspace c)"
    by (rule dropWhile_all_iff)
  finally show ?thesis .
qed

lemma strip_idem: "strip (strip s) = strip s"
proof (cases "strip s = []")
  case True
  have "strip [] = []" by (simp add: strip_def)
  with True show ?thesis by simp
next
  case False
  define t where "t = dropWhile isspace s"
  define u where "u = dropWhile isspace (rev t)"
  have su: "strip s = rev u" by (simp add: strip_def t_def u_def)
  from False su have "u \<noteq> []" by simp
  then have u_hd: "\<not> isspace (hd u)"
    unfolding u_def by (rule hd_dropWhile)
  from False su have "t \<noteq> []" by (auto simp: u_def)
  then have t_hd: "\<not> isspace (hd t)"
    unfolding t_def by (rule hd_dropWhile)
  have "hd (rev u) = hd t"
    using False su rstrip_hd [of isspace t] by (simp add: u_def)
  with t_hd have "dropWhile isspace (rev u) = rev u"
    by (simp add: dropWhile_fixed)
  moreover from u_hd have "dropWhile isspace u = u"
    by (simp add: dropWhile_fixed)
  ultimately have "strip (rev u) = rev u" by (simp add: strip_def)
  with su show ?thesis by simp
qed

section \<open>What \<^verbatim>\<open>rec\<close> appends\<close>

lemma append_stripped_alt:
  "append_stripped s texts = texts @ filter (\<lambda>t. t \<noteq> []) [strip s]"
  by (simp add: append_stripped_def)

lemma rec_seq_unfold:
  "rec (PSeq k obj) texts =
     (if is_pair obj then append_stripped (text_of (obj ! 0)) texts
      else if has_seq_second obj then
        (if starts_with_str (items (obj ! 1)) then
           append_stripped (text_of (items (obj ! 1) ! 0)) texts
         else fold rec (items (obj ! 1)) texts)
      else fold rec obj texts)"
  by (simp add: is_pair_def has_seq_second_def starts_with_str_def Let_def)

lemma fold_rec_append:
  assumes "\<And>x acc. x \<in> set xs \<Longrightarrow> rec x acc = acc @ emitted x"
  shows "fold rec xs texts = texts @ concat (map emitted xs)"
  using assms
proof (induction xs arbitrary: texts)
  case Nil
  show ?case by simp
next
  case (Cons x xs)
  have step: "rec x texts = texts @ emitted x"
    by (rule Cons.prems) simp
  have "fold rec xs (rec x texts) = rec x texts @ concat (map emitted xs)"
    by (rule Cons.IH) (rule Cons.prems, simp)
  then show ?case by (simp add: step)
qed

lemma rec_append: "rec obj texts = texts @ emitted obj"
proof (induction obj texts rule: rec.induct)
  case (5 k obj texts)
  note IH = "5.IH" [folded is_pair_def has_seq_second_def starts_with_str_def]
  show ?case
  proof (cases "is_pair obj")
    case True
    then show ?thesis
      by (simp only: rec_seq_unfold emitted_def if_True append_stripped_alt append_Nil)
  next
    case p1: False
    show ?thesis
    proof (cases "has_seq_second obj")
      case p2: True
      show ?thesis
      proof (cases "starts_with_str (items (obj ! 1))")
        case True
        with p1 p2 show ?thesis
          by (simp only: rec_seq_unfold emitted_def if_True if_False append_stripped_alt
              append_Nil)
      next
        case False
        have "fold rec (items (obj ! 1)) acc = acc @ concat (map emitted (items (obj ! 1)))"
          for acc
          by (rule fold_rec_append) (rule IH(1) [OF p1 p2 refl False])
        from this [of texts] this [of "[]"] p1 p2 False show ?thesis
          by (simp only: rec_seq_unfold emitted_def [of "PSeq k obj"] if_True if_False
              append_Nil)
      qed
    next
      case p2: False
      have "fold rec obj acc = acc @ concat (map emitted obj)" for acc
        by (rule fold_rec_append) (rule IH(2) [OF p1 p2])
      from this [of texts] this [of "[]"] p1 p2 show ?thesis
        by (simp only: rec_seq_unfold emitted_def [of "PSeq k obj"] if_True if_False append_Nil)
    qed
  qed
next
  case (6 kvs texts)
  have "fold rec (map snd kvs) acc = acc @ concat (map emitted (map snd kvs))" for acc
    by (rule fold_rec_append) (rule "6.IH")
  from this [of texts] this [of "[]"] show ?case
    by (simp add: emitted_def [of "PDict kvs"])
qed (simp_all add: append_stripped_alt emitted_def)

lemma fold_rec_concat: "fold rec xs texts = texts @ concat (map emitted xs)"
  by (rule fold_rec_append) (rule rec_append)

lemma emitted_seq:
  "emitted (PSeq k obj) =
     (if is_pair obj then filter (\<lambda>t. t \<noteq> []) [strip (text_of (obj ! 0))]
      else if has_seq_second obj then
        (if starts_with_str (items (obj ! 1)) then
           filter (\<lambda>t. t \<noteq> []) [strip (text_of (items (obj ! 1) ! 0))]
         else concat (map emitted (items (obj ! 1))))
      else concat (map emitted obj))"
  unfolding emitted_def [of "PSeq k obj"] rec_seq_unfold
  by (simp only: fold_rec_concat append_stripped_alt append_Nil)

lemma emitted_simps:
  "emitted (PStr s) = filter (\<lambda>t. t \<noteq> []) [strip s]"
  "emitted (PInt n) = []"
  "emitted (PFloat x) = []"
  "emitted (PBool b) = []"
  "emitted PNone = []"
  "emitted (PObj t) = []"
  "emitted (PDict kvs) = concat (map (\<lambda>kv. emitted (snd kv)) kvs)"
  by (simp_all add: emitted_def append_stripped_alt fold_rec_concat [of _ "[]"] comp_def)

text \<open>Induction along the calls of \<^verbatim>\<open>rec\<close>, for a property of the value alone.\<close>

lemma walk_induct [case_names Str Int Float Bool Seq Dict None Obj]:
  assumes "\<And>s. P (PStr s)" and "\<And>n. P (PInt n)" and "\<And>x. P (PFloat x)" and "\<And>b. P (PBool b)"
    and "\<And>k obj.
           (\<And>x. \<not> is_pair obj \<Longrightarrow> has_seq_second obj \<Longrightarrow>
                 \<not> starts_with_str (items (obj ! 1)) \<Longrightarrow> x \<in> set (items (obj ! 1)) \<Longrightarrow> P x) \<Longrightarrow>
           (\<And>x. \<not> is_pair obj \<Longrightarrow> \<not> has_seq_second obj \<Longrightarrow> x \<in> set obj \<Longrightarrow> P x) \<Longrightarrow>
           P (PSeq k obj)"
    and "\<And>kvs. (\<And>kv. kv \<in> set kvs \<Longrightarrow> P (snd kv)) \<Longrightarrow> P (PDict kvs)"
    and "P PNone" and "\<And>t. P (PObj t)"
  shows "P obj"
proof -
  have "P obj" for texts :: "pystr list"
  proof (induction obj texts rule: rec.induct)
    case (5 k obj texts)
    note IH = "5.IH" [folded is_pair_def has_seq_second_def starts_with_str_def]
    show ?case
      by (rule assms(5)) (auto intro: IH)
  next
    case (6 kvs texts)
    show ?case
      by (rule assms(6)) (rule "6.IH", simp)
  qed (rule assms)+
  then show ?thesis .
qed

lemma stripped_leaves_simps:
  "stripped_leaves (PStr s) = filter (\<lambda>t. t \<noteq> []) [strip s]"
  "stripped_leaves (PSeq k xs) = concat (map stripped_leaves xs)"
  "stripped_leaves (PDict kvs) = concat (map (\<lambda>kv. stripped_leaves (snd kv)) kvs)"
  by (simp_all add: stripped_leaves_def [abs_def] filter_concat map_concat comp_def)

lemma subseq_concat_map:
  "(\<And>x. x \<in> set xs \<Longrightarrow> subseq (f x) (g x)) \<Longrightarrow> subseq (concat (map f xs)) (concat (map g xs))"
  by (induction xs) (auto intro: list_emb_append_mono)

lemma subseq_member_concat:
  "x \<in> set xs \<Longrightarrow> subseq (g x) (concat (map g xs))"
proof (induction xs)
  case Nil
  then show ?case by simp
next
  case (Cons y ys)
  show ?case
  proof (cases "x = y")
    case True
    then show ?thesis
      using list_emb_append_mono [of "(=)" "g y" "g y" "[]" "concat (map g ys)"] by simp
  next
    case False
    with Cons have "subseq (g x) (concat (map g ys))" by simp
    then show ?thesis by (simp add: list_emb_append2)
  qed
qed

lemma items_stripped_leaves:
  "is_seq v \<Longrightarrow> stripped_leaves v = concat (map stripped_leaves (items v))"
  by (cases v) (simp_all add: stripped_leaves_simps)

lemma is_str_text_of: "is_str v \<Longrightarrow> v = PStr (text_of v)"
  by (cases v) simp_all

lemma emitted_clean: "t \<in> set (emitted obj) \<Longrightarrow> t \<noteq> [] \<and> strip t = t"
proof (induction obj rule: walk_induct)
  case (Seq k obj)
  then show ?case
    by (auto simp: emitted_seq strip_idem split: if_splits)
next
  case (Dict kvs)
  then show ?case by (auto simp: emitted_simps)
qed (auto simp: emitted_simps strip_idem split: if_splits)

lemma emitted_subseq: "subseq (emitted obj) (stripped_leaves obj)"
proof (induction obj rule: walk_induct)
  case (Seq k obj)
  show ?case
  proof (cases "is_pair obj")
    case True
    then have mem: "obj ! 0 \<in> set obj" and s: "is_str (obj ! 0)"
      by (simp_all add: is_pair_def)
    have "subseq (stripped_leaves (obj ! 0)) (concat (map stripped_leaves obj))"
      using mem by (rule subseq_member_concat)
    moreover have "stripped_leaves (obj ! 0) = filter (\<lambda>t. t \<noteq> []) [strip (text_of (obj ! 0))]"
      using is_str_text_of [OF s] stripped_leaves_simps(1) [of "text_of (obj ! 0)"] by simp
    ultimately show ?thesis
      using True by (simp only: emitted_seq stripped_leaves_simps if_True)
  next
    case p1: False
    show ?thesis
    proof (cases "has_seq_second obj")
      case p2: True
      then have mem: "obj ! 1 \<in> set obj" and sq: "is_seq (obj ! 1)"
        by (simp_all add: has_seq_second_def)
      have outer: "subseq (stripped_leaves (obj ! 1)) (concat (map stripped_leaves obj))"
        using mem by (rule subseq_member_concat)
      have sec: "stripped_leaves (obj ! 1) = concat (map stripped_leaves (items (obj ! 1)))"
        using sq by (rule items_stripped_leaves)
      show ?thesis
      proof (cases "starts_with_str (items (obj ! 1))")
        case True
        then have mem0: "items (obj ! 1) ! 0 \<in> set (items (obj ! 1))"
          and s: "is_str (items (obj ! 1) ! 0)"
          by (auto simp: starts_with_str_def intro: nth_mem)
        have "subseq (stripped_leaves (items (obj ! 1) ! 0))
                (concat (map stripped_leaves (items (obj ! 1))))"
          using mem0 by (rule subseq_member_concat)
        moreover have "stripped_leaves (items (obj ! 1) ! 0)
            = filter (\<lambda>t. t \<noteq> []) [strip (text_of (items (obj ! 1) ! 0))]"
          using is_str_text_of [OF s] stripped_leaves_simps(1) [of "text_of (items (obj ! 1) ! 0)"]
          by simp
        ultimately have "subseq (filter (\<lambda>t. t \<noteq> []) [strip (text_of (items (obj ! 1) ! 0))])
            (concat (map stripped_leaves obj))"
          using outer sec subseq_order.order_trans by metis
        with p1 p2 True show ?thesis
          by (simp only: emitted_seq stripped_leaves_simps if_True if_False)
      next
        case False
        have "subseq (concat (map emitted (items (obj ! 1))))
                (concat (map stripped_leaves (items (obj ! 1))))"
          by (rule subseq_concat_map) (rule Seq.IH(1) [OF p1 p2 False])
        then have "subseq (concat (map emitted (items (obj ! 1))))
            (concat (map stripped_leaves obj))"
          using outer sec subseq_order.order_trans by metis
        with p1 p2 False show ?thesis
          by (simp only: emitted_seq stripped_leaves_simps if_True if_False)
      qed
    next
      case p2: False
      have "subseq (concat (map emitted obj)) (concat (map stripped_leaves obj))"
        by (rule subseq_concat_map) (rule Seq.IH(2) [OF p1 p2])
      with p1 p2 show ?thesis
        by (simp only: emitted_seq stripped_leaves_simps if_True if_False)
    qed
  qed
next
  case (Dict kvs)
  have "subseq (concat (map (\<lambda>kv. emitted (snd kv)) kvs))
          (concat (map (\<lambda>kv. stripped_leaves (snd kv)) kvs))"
    by (rule subseq_concat_map) (rule Dict.IH)
  then show ?case by (simp only: emitted_simps stripped_leaves_simps)
qed (simp_all add: emitted_simps stripped_leaves_def)

lemma extract_emitted: "extract_texts_from_predict result = emitted result"
proof -
  have "filter (\<lambda>t. t \<noteq> []) (emitted result) = emitted result"
    by (rule filter_True) (simp add: emitted_clean)
  then show ?thesis by (simp add: extract_texts_from_predict_def emitted_def)
qed

section \<open>The depth of the calls\<close>

lemma fold_max_lower: "(a::nat) \<le> fold max ns a"
proof (induction ns arbitrary: a)
  case Nil
  show ?case by simp
next
  case (Cons n ns)
  have "a \<le> max n a" by simp
  also have "\<dots> \<le> fold max ns (max n a)" by (rule Cons.IH)
  finally show ?case by simp
qed

lemma fold_max_member: "n \<in> set ns \<Longrightarrow> (n::nat) \<le> fold max ns a"
proof (induction ns arbitrary: a)
  case Nil
  then show ?case by simp
next
  case (Cons m ns)
  show ?case
  proof (cases "n = m")
    case True
    have "n \<le> max m a" using True by simp
    also have "\<dots> \<le> fold max ns (max m a)" by (rule fold_max_lower)
    finally show ?thesis by simp
  next
    case False
    with Cons.prems have "n \<in> set ns" by simp
    then have "n \<le> fold max ns (max m a)" by (rule Cons.IH)
    then show ?thesis by simp
  qed
qed

lemma depth_element: "x \<in> set xs \<Longrightarrow> depth x < depth (PSeq k xs)"
proof -
  assume "x \<in> set xs"
  then have "depth x \<in> set (map depth xs)" by simp
  then have "depth x \<le> fold max (map depth xs) 0" by (rule fold_max_member)
  then show ?thesis by simp
qed

lemma depth_value: "kv \<in> set kvs \<Longrightarrow> depth (snd kv) < depth (PDict kvs)"
proof -
  assume "kv \<in> set kvs"
  then have "depth (snd kv) \<in> set (map (\<lambda>kv. depth (snd kv)) kvs)" by force
  then have "depth (snd kv) \<le> fold max (map (\<lambda>kv. depth (snd kv)) kvs) 0"
    by (rule fold_max_member)
  then show ?thesis by simp
qed

lemma depth_items: "x \<in> set (items v) \<Longrightarrow> depth x < depth v"
  by (cases v) (simp_all only: items.simps depth_element empty_iff list.set)

lemma for_each_returns:
  assumes "\<And>x s. x \<in> set xs \<Longrightarrow> f x s = Some (g x s)"
  shows "for_each f xs s = Some (fold g xs s)"
proof -
  have "fold (\<lambda>x acc. Option.bind acc (f x)) xs (Some s) = Some (fold g xs s)"
    using assms
  proof (induction xs arbitrary: s)
    case Nil
    show ?case by simp
  next
    case (Cons x xs)
    have "f x s = Some (g x s)" by (rule Cons.prems) simp
    moreover have "fold (\<lambda>x acc. Option.bind acc (f x)) xs (Some (g x s))
        = Some (fold g xs (g x s))"
      by (rule Cons.IH) (rule Cons.prems, simp)
    ultimately show ?case by simp
  qed
  then show ?thesis by (simp add: for_each_def)
qed

lemma rec_fuel_seq_unfold:
  "rec_fuel (Suc n) (PSeq k obj) texts =
     (if is_pair obj then Some (append_stripped (text_of (obj ! 0)) texts)
      else if has_seq_second obj then
        (if starts_with_str (items (obj ! 1)) then
           Some (append_stripped (text_of (items (obj ! 1) ! 0)) texts)
         else for_each (rec_fuel n) (items (obj ! 1)) texts)
      else for_each (rec_fuel n) obj texts)"
  by (simp add: is_pair_def has_seq_second_def starts_with_str_def Let_def)

lemma rec_fuel_enough: "depth obj < n \<Longrightarrow> rec_fuel n obj texts = Some (rec obj texts)"
proof (induction obj texts arbitrary: n rule: rec.induct)
  case (5 k obj texts)
  note IH = "5.IH" [folded is_pair_def has_seq_second_def starts_with_str_def]
  from "5.prems" obtain m where n: "n = Suc m" and below: "depth (PSeq k obj) \<le> m"
    by (cases n) auto
  show ?case
  proof (cases "is_pair obj")
    case True
    then show ?thesis
      by (simp only: n rec_fuel_seq_unfold rec_seq_unfold if_True)
  next
    case p1: False
    show ?thesis
    proof (cases "has_seq_second obj")
      case p2: True
      then have "obj ! 1 \<in> set obj"
        by (simp add: has_seq_second_def)
      then have second: "depth (obj ! 1) < depth (PSeq k obj)"
        by (rule depth_element)
      show ?thesis
      proof (cases "starts_with_str (items (obj ! 1))")
        case True
        with p1 p2 show ?thesis
          by (simp only: n rec_fuel_seq_unfold rec_seq_unfold if_True if_False)
      next
        case False
        have "for_each (rec_fuel m) (items (obj ! 1)) texts
            = Some (fold rec (items (obj ! 1)) texts)"
        proof (rule for_each_returns)
          fix x s
          assume x: "x \<in> set (items (obj ! 1))"
          then have "depth x < depth (obj ! 1)" by (rule depth_items)
          with second below have "depth x < m" by simp
          then show "rec_fuel m x s = Some (rec x s)"
            by (rule IH(1) [OF p1 p2 refl False x])
        qed
        with p1 p2 False show ?thesis
          by (simp only: n rec_fuel_seq_unfold rec_seq_unfold if_True if_False)
      qed
    next
      case p2: False
      have "for_each (rec_fuel m) obj texts = Some (fold rec obj texts)"
      proof (rule for_each_returns)
        fix x s
        assume x: "x \<in> set obj"
        then have "depth x < depth (PSeq k obj)" by (rule depth_element)
        with below have "depth x < m" by simp
        then show "rec_fuel m x s = Some (rec x s)"
          by (rule IH(2) [OF p1 p2 x])
      qed
      with p1 p2 show ?thesis
        by (simp only: n rec_fuel_seq_unfold rec_seq_unfold if_True if_False)
    qed
  qed
next
  case (6 kvs texts)
  from "6.prems" obtain m where n: "n = Suc m" and below: "depth (PDict kvs) \<le> m"
    by (cases n) auto
  have "for_each (rec_fuel m) (map snd kvs) texts = Some (fold rec (map snd kvs) texts)"
  proof (rule for_each_returns)
    fix x s
    assume x: "x \<in> set (map snd kvs)"
    then obtain kv where "kv \<in> set kvs" and "x = snd kv" by auto
    then have "depth x < depth (PDict kvs)" using depth_value by simp
    with below have "depth x < m" by simp
    then show "rec_fuel m x s = Some (rec x s)"
      by (rule "6.IH" [OF x])
  qed
  then show ?case by (simp add: n)
next
  case (1 s texts)
  then show ?case by (cases n) simp_all
next
  case (2 i texts)
  then show ?case by (cases n) simp_all
next
  case (3 x texts)
  then show ?case by (cases n) simp_all
next
  case (4 b texts)
  then show ?case by (cases n) simp_all
next
  case (7 texts)
  then show ?case by (cases n) simp_all
next
  case (8 t texts)
  then show ?case by (cases n) simp_all
qed

section \<open>The loop of the batch script\<close>



section \<open>The sample inputs, evaluated\<close>

lemma sample_result_texts:
  "extract_texts_from_predict sample_result = [str ''Hello'', str ''World'']"
  by (simp add: sample_result_def extract_texts_from_predict_def append_stripped_def
      strip_def isspace_def str_def)

lemma sample_saved_path:
  "path_join (IMAGES_DIR sample_env) (secure_filename sample_env (filename sample_upload))
     = str ''/srv/app/output/scan.PNG''"
  by (simp add: sample_env_def sample_upload_def IMAGES_DIR_def path_join_def str_def)

lemma sample_allowed:
  "allowed_filename (secure_filename sample_env (filename sample_upload))"
  by (simp add: sample_env_def sample_upload_def allowed_filename_def ALLOWED_EXTENSIONS_def
      path_suffix_def path_name_def lower_def str_def)

lemma sample_out_path:
  "with_suffix (str ''/srv/app/output/scan.PNG'') (str ''.txt'')
     = Inr (str ''/srv/app/output/scan.txt'')"
  by (simp add: with_suffix_def path_suffix_def path_name_def str_def)

section \<open>The claims about \<^verbatim>\<open>extract_texts_from_predict\<close>\<close>

text \<open>
  Claim C1. For every value, each element of the list \<^verbatim>\<open>extract_texts_from_predict\<close>
  returns is a non-empty string that equals its own stripped form, and the list is a
  subsequence of the stripped string leaves of the value in depth-first, left-to-right
  order: the texts come out in the order of the walk.
\<close>

theorem extract_texts_clean_and_ordered:
  "(\<forall>t \<in> set (extract_texts_from_predict result). t \<noteq> [] \<and> strip t = t) \<and>
   subseq (extract_texts_from_predict result)
     (filter (\<lambda>t. t \<noteq> []) (map strip (leaves result)))"
  using emitted_clean [of _ result] emitted_subseq [of result]
  by (simp add: extract_emitted stripped_leaves_def)

text \<open>
  The claim at the value
  \<^verbatim>\<open>{"rec_texts": [" Hello ", "World"], "rec_scores": [0.9, 0.8]}\<close>.
\<close>

theorem extract_texts_clean_and_ordered_witness:
  "extract_texts_from_predict sample_result = [str ''Hello'', str ''World''] \<and>
   str ''Hello'' \<noteq> [] \<and> strip (str ''Hello'') = str ''Hello'' \<and>
   str ''World'' \<noteq> [] \<and> strip (str ''World'') = str ''World'' \<and>
   subseq (extract_texts_from_predict sample_result)
     (filter (\<lambda>t. t \<noteq> []) (map strip (leaves sample_result)))"
proof -
  have extracted: "extract_texts_from_predict sample_result = [str ''Hello'', str ''World'']"
    by (simp add: sample_result_def extract_texts_from_predict_def append_stripped_def
        strip_def isspace_def str_def)
  note claim = extract_texts_clean_and_ordered [of sample_result]
  from claim have "\<forall>t \<in> set [str ''Hello'', str ''World'']. t \<noteq> [] \<and> strip t = t"
    unfolding extracted by (rule conjunct1)
  then have elements:
    "str ''Hello'' \<noteq> [] \<and> strip (str ''Hello'') = str ''Hello'' \<and>
     str ''World'' \<noteq> [] \<and> strip (str ''World'') = str ''World''"
    by simp
  from claim have ordered: "subseq (extract_texts_from_predict sample_result)
     (filter (\<lambda>t. t \<noteq> []) (map strip (leaves sample_result)))"
    by (rule conjunct2)
  from extracted elements ordered show ?thesis by blast
qed

text \<open>
  Claim C2. For a list or tuple of two elements, a string \<open>s\<close> and then a number \<open>c\<close>,
  the result is the list of \<open>strip s\<close> alone when that is not empty, and the empty
  list when \<open>s\<close> is whitespace only (the two cases are all the cases); the result depends
  on \<open>s\<close> alone, so \<open>c\<close> has no part in it.
\<close>

theorem extract_texts_text_confidence_pair:
  assumes "is_number c"
  shows "(strip s \<noteq> [] \<longrightarrow> extract_texts_from_predict (PSeq k [PStr s, c]) = [strip s]) \<and>
         ((\<forall>ch \<in> set s. isspace ch) \<longrightarrow> extract_texts_from_predict (PSeq k [PStr s, c]) = []) \<and>
         ((strip s = []) = (\<forall>ch \<in> set s. isspace ch))"
proof -
  have "is_pair [PStr s, c]"
    using assms by (simp add: is_pair_def)
  then have "extract_texts_from_predict (PSeq k [PStr s, c]) = filter (\<lambda>t. t \<noteq> []) [strip s]"
    by (simp add: extract_emitted emitted_seq)
  then show ?thesis
    by (simp add: strip_empty_iff)
qed

text \<open>The claim at \<^verbatim>\<open>(" Total ", 0.97)\<close> and at \<^verbatim>\<open>["  ", 3]\<close>.\<close>

theorem extract_texts_text_confidence_pair_witness:
  "is_number (PFloat 0.97) \<and> strip (str '' Total '') \<noteq> [] \<and>
   extract_texts_from_predict (PSeq PyTuple [PStr (str '' Total ''), PFloat 0.97])
     = [str ''Total''] \<and>
   is_number (PInt 3) \<and> isspace 32 \<and>
   extract_texts_from_predict (PSeq PyList [PStr (str ''  ''), PInt 3]) = []"
proof -
  have stripped: "strip (str '' Total '') = str ''Total''"
    by (simp add: strip_def isspace_def str_def)
  have filled: "str ''Total'' \<noteq> []"
    by (simp add: str_def)
  have blank: "\<forall>ch \<in> set (str ''  ''). isspace ch"
    by (simp add: isspace_def str_def)
  have n1: "is_number (PFloat 0.97)" and n2: "is_number (PInt 3)"
    by simp_all
  from extract_texts_text_confidence_pair [OF n1, of "str '' Total ''" PyTuple] stripped filled
  have first: "extract_texts_from_predict (PSeq PyTuple [PStr (str '' Total ''), PFloat 0.97])
     = [str ''Total'']"
    by simp
  from extract_texts_text_confidence_pair [OF n2, of "str ''  ''" PyList] blank
  have second: "extract_texts_from_predict (PSeq PyList [PStr (str ''  ''), PInt 3]) = []"
    by simp
  have space: "isspace 32"
    by (simp add: isspace_def)
  from n1 n2 stripped filled first second space show ?thesis
    by simp
qed

text \<open>
  Claim C9. The walk does not collect every leaf. For every list or tuple whose second
  element is a list or tuple that begins with a string, the result holds that string,
  stripped, and nothing else (nothing at all when it strips to the empty string),
  whatever the other elements are. At \<^verbatim>\<open>['a', ['b', 'c']]\<close> the result is \<^verbatim>\<open>['b']\<close>, while
  the string leaves are \<^verbatim>\<open>'a'\<close>, \<^verbatim>\<open>'b'\<close> and \<^verbatim>\<open>'c'\<close>.
\<close>

theorem extract_texts_omits_leaves:
  "extract_texts_from_predict (PSeq k (x # PSeq k' (PStr s # rest) # others))
     = (if strip s = [] then [] else [strip s]) \<and>
   extract_texts_from_predict nested_sample = [str ''b''] \<and>
   leaves nested_sample = [str ''a'', str ''b'', str ''c'']"
proof -
  let ?obj = "x # PSeq k' (PStr s # rest) # others"
  have "\<not> is_pair ?obj"
    by (simp add: is_pair_def)
  moreover have "has_seq_second ?obj"
    by (simp add: has_seq_second_def)
  moreover have "starts_with_str (items (?obj ! 1))"
    by (simp add: starts_with_str_def)
  ultimately have "emitted (PSeq k ?obj) = filter (\<lambda>t. t \<noteq> []) [strip s]"
    by (simp add: emitted_seq)
  then have general: "extract_texts_from_predict (PSeq k ?obj)
      = (if strip s = [] then [] else [strip s])"
    by (simp add: extract_emitted)
  have "strip (str ''b'') = str ''b''"
    by (simp add: strip_def isspace_def str_def)
  moreover have "str ''b'' \<noteq> []"
    by (simp add: str_def)
  ultimately have sample: "extract_texts_from_predict nested_sample = [str ''b'']"
    by (simp add: nested_sample_def extract_texts_from_predict_def append_stripped_def)
  have "leaves nested_sample = [str ''a'', str ''b'', str ''c'']"
    by (simp add: nested_sample_def)
  with general sample show ?thesis by simp
qed

text \<open>
  Claim C8. \<^verbatim>\<open>rec\<close> returns on every value: its calls go to elements of the sequence, to
  elements of its second element, or to values of the dict, each of smaller depth, so a
  call stack one deeper than the nesting depth of the value is enough, and the call then
  returns what the function defined by recursion over the structure returns.
\<close>

theorem rec_returns_within_depth:
  "rec_fuel (Suc (depth obj)) obj texts = Some (rec obj texts)"
  by (rule rec_fuel_enough) simp

text \<open>At \<^verbatim>\<open>['a', ['b', 'c']]\<close>, of depth 2, three frames are enough.\<close>

theorem rec_returns_within_depth_witness:
  "depth nested_sample = 2 \<and> rec_fuel 3 nested_sample [] = Some [str ''b'']"
proof -
  have d: "depth nested_sample = 2"
    by (simp add: nested_sample_def)
  have "strip (str ''b'') = str ''b''"
    by (simp add: strip_def isspace_def str_def)
  moreover have "str ''b'' \<noteq> []"
    by (simp add: str_def)
  ultimately have r: "rec nested_sample [] = [str ''b'']"
    by (simp add: nested_sample_def append_stripped_def)
  have "Suc (depth nested_sample) = 3"
    by (simp add: d)
  with rec_returns_within_depth [of nested_sample "[]"] r d show ?thesis
    by simp
qed

section \<open>The claims about the upload service\<close>

text \<open>
  Claim C3 says that every \<^verbatim>\<open>POST /upload\<close> without a \<^verbatim>\<open>file\<close> field (or with an empty
  file name, or a disallowed extension) is answered with status 400 and a JSON error
  body. The application caps the body at 16 MB: a request without a \<^verbatim>\<open>file\<close> field whose
  body is one byte longer is answered with status 413 and the default error page, which
  is no JSON body.
\<close>

theorem upload_oversize_counterexample:
  "files oversize_request (str ''file'') = None \<and>
   upload_file sample_env Map.empty oversize_request = (Abort 413, Map.empty) \<and>
   flask_response (fst (upload_file sample_env Map.empty oversize_request))
     = (413, DefaultErrorPage) \<and>
   \<not> json_error_body (snd (flask_response (fst (upload_file sample_env Map.empty
        oversize_request))))"
  by (simp add: upload_file_def oversize_request_def MAX_CONTENT_LENGTH_def)

text \<open>
  Claim C3, amended. For a request whose body is within the cap of 16 MB: when it has no
  field \<^verbatim>\<open>file\<close>, or the file name of the upload is empty, or the lowered extension of
  the sanitised file name is not one of the allowed ones, \<^verbatim>\<open>POST /upload\<close> answers with
  status 400 and a JSON body that has an \<^verbatim>\<open>error\<close> key, and the file system is the one
  before the request: no image is saved. A request over the cap is answered with status
  413 and the default error page, and no image is saved either.
\<close>

theorem upload_rejects_invalid_request:
  "(content_length req \<le> MAX_CONTENT_LENGTH \<and>
    (files req (str ''file'') = None \<or>
     (\<exists>f. files req (str ''file'') = Some f \<and>
          (filename f = [] \<or>
           lower (path_suffix (secure_filename e (filename f))) \<notin> ALLOWED_EXTENSIONS))) \<longrightarrow>
    (\<exists>kvs. upload_file e fs req = (Response (JsonBody kvs) 400, fs) \<and>
           ''error'' \<in> fst ` set kvs)) \<and>
   (content_length req > MAX_CONTENT_LENGTH \<longrightarrow>
      upload_file e fs req = (Abort 413, fs) \<and>
      flask_response (fst (upload_file e fs req)) = (413, DefaultErrorPage))"
proof -
  have "\<exists>kvs. upload_file e fs req = (Response (JsonBody kvs) 400, fs) \<and>
           ''error'' \<in> fst ` set kvs"
    if within: "content_length req \<le> MAX_CONTENT_LENGTH"
      and invalid: "files req (str ''file'') = None \<or>
        (\<exists>f. files req (str ''file'') = Some f \<and>
          (filename f = [] \<or>
           lower (path_suffix (secure_filename e (filename f))) \<notin> ALLOWED_EXTENSIONS))"
  proof (cases "files req (str ''file'')")
    case None
    with within show ?thesis by (simp add: upload_file_def)
  next
    case (Some f)
    with invalid
    have bad: "filename f = [] \<or> \<not> allowed_filename (secure_filename e (filename f))"
      by (simp add: allowed_filename_def)
    show ?thesis
    proof (cases "filename f = []")
      case True
      with Some within show ?thesis by (simp add: upload_file_def)
    next
      case False
      with bad have "\<not> allowed_filename (secure_filename e (filename f))" by simp
      with Some False within show ?thesis by (simp add: upload_file_def Let_def)
    qed
  qed
  moreover have "upload_file e fs req = (Abort 413, fs) \<and>
      flask_response (fst (upload_file e fs req)) = (413, DefaultErrorPage)"
    if "content_length req > MAX_CONTENT_LENGTH"
    using that by (simp add: upload_file_def)
  ultimately show ?thesis by blast
qed

text \<open>
  The amended claim at a request without files, at an upload without a name, at an
  upload named \<^verbatim>\<open>notes.exe\<close>, and at the request over the cap.
\<close>

theorem upload_rejects_invalid_request_witness:
  "content_length empty_request \<le> MAX_CONTENT_LENGTH \<and>
   files empty_request (str ''file'') = None \<and>
   (\<exists>kvs. upload_file sample_env Map.empty empty_request
            = (Response (JsonBody kvs) 400, Map.empty) \<and>
          ''error'' \<in> fst ` set kvs) \<and>
   content_length unnamed_request \<le> MAX_CONTENT_LENGTH \<and>
   (\<exists>kvs. upload_file sample_env Map.empty unnamed_request
            = (Response (JsonBody kvs) 400, Map.empty) \<and>
          ''error'' \<in> fst ` set kvs) \<and>
   content_length script_request \<le> MAX_CONTENT_LENGTH \<and>
   lower (path_suffix (secure_filename sample_env (str ''notes.exe''))) \<notin> ALLOWED_EXTENSIONS \<and>
   (\<exists>kvs. upload_file sample_env Map.empty script_request
            = (Response (JsonBody kvs) 400, Map.empty) \<and>
          ''error'' \<in> fst ` set kvs) \<and>
   content_length oversize_request > MAX_CONTENT_LENGTH \<and>
   upload_file sample_env Map.empty oversize_request = (Abort 413, Map.empty)"
proof -
  have c1: "content_length empty_request \<le> MAX_CONTENT_LENGTH"
    and c2: "content_length unnamed_request \<le> MAX_CONTENT_LENGTH"
    and c3: "content_length script_request \<le> MAX_CONTENT_LENGTH"
    and c4: "content_length oversize_request > MAX_CONTENT_LENGTH"
    by (simp_all add: empty_request_def unnamed_request_def script_request_def
        oversize_request_def MAX_CONTENT_LENGTH_def)
  have none: "files empty_request (str ''file'') = None"
    by (simp add: empty_request_def)
  have unnamed: "\<exists>f. files unnamed_request (str ''file'') = Some f \<and> filename f = []"
    by (simp add: unnamed_request_def)
  have ext: "lower (path_suffix (secure_filename sample_env (str ''notes.exe'')))
      \<notin> ALLOWED_EXTENSIONS"
    by (simp add: sample_env_def ALLOWED_EXTENSIONS_def path_suffix_def path_name_def
        lower_def str_def)
  have script: "\<exists>f. files script_request (str ''file'') = Some f \<and>
      lower (path_suffix (secure_filename sample_env (filename f))) \<notin> ALLOWED_EXTENSIONS"
    using ext by (simp add: script_request_def)
  have first: "\<exists>kvs. upload_file sample_env Map.empty empty_request
      = (Response (JsonBody kvs) 400, Map.empty) \<and> ''error'' \<in> fst ` set kvs"
    using upload_rejects_invalid_request
      [where req = empty_request and e = sample_env and fs = Map.empty] c1 none
    by blast
  have second: "\<exists>kvs. upload_file sample_env Map.empty unnamed_request
      = (Response (JsonBody kvs) 400, Map.empty) \<and> ''error'' \<in> fst ` set kvs"
    using upload_rejects_invalid_request
      [where req = unnamed_request and e = sample_env and fs = Map.empty] c2 unnamed
    by blast
  have third: "\<exists>kvs. upload_file sample_env Map.empty script_request
      = (Response (JsonBody kvs) 400, Map.empty) \<and> ''error'' \<in> fst ` set kvs"
    using upload_rejects_invalid_request
      [where req = script_request and e = sample_env and fs = Map.empty] c3 script
    by blast
  have fourth: "upload_file sample_env Map.empty oversize_request = (Abort 413, Map.empty)"
    using upload_rejects_invalid_request
      [where req = oversize_request and e = sample_env and fs = Map.empty] c4
    by blast
  from c1 none first c2 second c3 ext third c4 fourth show ?thesis by blast
qed

text \<open>
  Claim C5. When the request is within the cap and passes the three checks, the image is
  saved, and the OCR step returns the output path \<open>out\<close> and the texts, \<^verbatim>\<open>POST /upload\<close>
  answers with status 201 and a JSON body in which \<^verbatim>\<open>image\<close> is the path the image was
  saved at, \<^verbatim>\<open>txt_file\<close> is \<open>out\<close>, \<^verbatim>\<open>text_lines_count\<close> is the number of texts and
  \<^verbatim>\<open>text_preview\<close> is the first twenty texts joined by newlines; the body has a
  \<^verbatim>\<open>warning\<close> key exactly when there are no texts.
\<close>

theorem upload_success_response:
  assumes "content_length req \<le> MAX_CONTENT_LENGTH"
    and "files req (str ''file'') = Some f"
    and "filename f \<noteq> []"
    and "allowed_filename (secure_filename e (filename f))"
    and "saved = path_join (IMAGES_DIR e) (secure_filename e (filename f))"
    and "file_save e fs saved (content f) = None"
    and "ocr_image_to_txt e (fs(saved \<mapsto> content f)) saved None = Inr ((out, texts), fs')"
  shows "\<exists>kvs. upload_file e fs req = (Response (JsonBody kvs) 201, fs') \<and>
               map_of kvs ''image'' = Some (JStr saved) \<and>
               map_of kvs ''txt_file'' = Some (JStr out) \<and>
               map_of kvs ''text_lines_count'' = Some (JInt (int (length texts))) \<and>
               map_of kvs ''text_preview'' = Some (JStr (join [10] (take 20 texts))) \<and>
               ((''warning'' \<in> fst ` set kvs) = (texts = []))"
  using assms by (simp add: upload_file_def Let_def)

text \<open>The claim at the upload of \<^verbatim>\<open>scan.PNG\<close>, in which the engine reads two lines.\<close>

theorem upload_success_response_witness:
  "content_length sample_request \<le> MAX_CONTENT_LENGTH \<and>
   files sample_request (str ''file'') = Some sample_upload \<and>
   filename sample_upload \<noteq> [] \<and>
   allowed_filename (secure_filename sample_env (filename sample_upload)) \<and>
   (\<exists>kvs fs'. upload_file sample_env Map.empty sample_request
                 = (Response (JsonBody kvs) 201, fs') \<and>
      map_of kvs ''image'' = Some (JStr (str ''/srv/app/output/scan.PNG'')) \<and>
      map_of kvs ''txt_file'' = Some (JStr (str ''/srv/app/output/scan.txt'')) \<and>
      map_of kvs ''text_lines_count'' = Some (JInt 2) \<and>
      map_of kvs ''text_preview'' = Some (JStr (str ''Hello'' @ [10] @ str ''World'')) \<and>
      ''warning'' \<notin> fst ` set kvs)"
proof -
  let ?saved = "str ''/srv/app/output/scan.PNG''"
  let ?out = "str ''/srv/app/output/scan.txt''"
  let ?texts = "[str ''Hello'', str ''World'']"
  let ?fs1 = "[?saved \<mapsto> content sample_upload]"
  have within: "content_length sample_request \<le> MAX_CONTENT_LENGTH"
    by (simp add: sample_request_def MAX_CONTENT_LENGTH_def)
  have field: "files sample_request (str ''file'') = Some sample_upload"
    by (simp add: sample_request_def)
  have named: "filename sample_upload \<noteq> []"
    by (simp add: sample_upload_def str_def)
  have written: "file_save sample_env Map.empty ?saved (content sample_upload) = None"
    by (simp add: sample_env_def)
  have engine: "predict sample_env ?fs1 ?saved = Inr sample_result"
    by (simp add: sample_env_def)
  have ocr: "ocr_image_to_txt sample_env ?fs1 ?saved None
      = Inr ((?out, ?texts), ?fs1(?out \<mapsto> join [10] ?texts))"
    by (simp add: ocr_image_to_txt_def path_exists_def engine sample_result_texts
        sample_out_path)
  from upload_success_response [where req = sample_request and fs = Map.empty,
      OF within field named sample_allowed sample_saved_path [symmetric] written ocr]
  obtain kvs where
    "upload_file sample_env Map.empty sample_request
       = (Response (JsonBody kvs) 201, ?fs1(?out \<mapsto> join [10] ?texts))"
    "map_of kvs ''image'' = Some (JStr ?saved)"
    "map_of kvs ''txt_file'' = Some (JStr ?out)"
    "map_of kvs ''text_lines_count'' = Some (JInt (int (length ?texts)))"
    "map_of kvs ''text_preview'' = Some (JStr (join [10] (take 20 ?texts)))"
    "(''warning'' \<in> fst ` set kvs) = (?texts = [])"
    by blast
  then have "\<exists>kvs fs'. upload_file sample_env Map.empty sample_request
        = (Response (JsonBody kvs) 201, fs') \<and>
      map_of kvs ''image'' = Some (JStr ?saved) \<and>
      map_of kvs ''txt_file'' = Some (JStr ?out) \<and>
      map_of kvs ''text_lines_count'' = Some (JInt 2) \<and>
      map_of kvs ''text_preview'' = Some (JStr (str ''Hello'' @ [10] @ str ''World'')) \<and>
      ''warning'' \<notin> fst ` set kvs"
    by simp
  with within field named sample_allowed show ?thesis by blast
qed

text \<open>
  Claim C10. When the request is within the cap and passes the three checks, the image
  is saved, and the OCR step then raises, \<^verbatim>\<open>POST /upload\<close> answers with status 500 and
  the JSON body with the keys \<^verbatim>\<open>error\<close> and \<^verbatim>\<open>detail\<close>, and the file system it leaves is
  the one with the image saved: the image is still there.
\<close>

theorem upload_ocr_failure_keeps_image:
  assumes "content_length req \<le> MAX_CONTENT_LENGTH"
    and "files req (str ''file'') = Some f"
    and "filename f \<noteq> []"
    and "allowed_filename (secure_filename e (filename f))"
    and "saved = path_join (IMAGES_DIR e) (secure_filename e (filename f))"
    and "file_save e fs saved (content f) = None"
    and "ocr_image_to_txt e (fs(saved \<mapsto> content f)) saved None = Inl ex"
  shows "upload_file e fs req =
           (Response (JsonBody [(''error'', JStr (str ''ocr_failed'')),
                                (''detail'', JStr (str_exn ex))]) 500,
            fs(saved \<mapsto> content f)) \<and>
         snd (upload_file e fs req) saved = Some (content f)"
  using assms by (simp add: upload_file_def Let_def)

text \<open>The claim at the upload of \<^verbatim>\<open>scan.PNG\<close> with an engine that raises.\<close>

theorem upload_ocr_failure_keeps_image_witness:
  "content_length sample_request \<le> MAX_CONTENT_LENGTH \<and>
   files sample_request (str ''file'') = Some sample_upload \<and>
   filename sample_upload \<noteq> [] \<and>
   allowed_filename (secure_filename failing_env (filename sample_upload)) \<and>
   ocr_image_to_txt failing_env [str ''/srv/app/output/scan.PNG'' \<mapsto> content sample_upload]
     (str ''/srv/app/output/scan.PNG'') None = Inl (LibraryError (str ''engine failure'')) \<and>
   upload_file failing_env Map.empty sample_request =
     (Response (JsonBody [(''error'', JStr (str ''ocr_failed'')),
                          (''detail'', JStr (str ''engine failure''))]) 500,
      [str ''/srv/app/output/scan.PNG'' \<mapsto> content sample_upload]) \<and>
   snd (upload_file failing_env Map.empty sample_request) (str ''/srv/app/output/scan.PNG'')
     = Some [137, 80, 78, 71]"
proof -
  let ?saved = "str ''/srv/app/output/scan.PNG''"
  let ?fs1 = "[?saved \<mapsto> content sample_upload]"
  have within: "content_length sample_request \<le> MAX_CONTENT_LENGTH"
    by (simp add: sample_request_def MAX_CONTENT_LENGTH_def)
  have field: "files sample_request (str ''file'') = Some sample_upload"
    by (simp add: sample_request_def)
  have named: "filename sample_upload \<noteq> []"
    by (simp add: sample_upload_def str_def)
  have allowed: "allowed_filename (secure_filename failing_env (filename sample_upload))"
    using sample_allowed by (simp add: failing_env_def sample_env_def)
  have saved: "?saved = path_join (IMAGES_DIR failing_env)
      (secure_filename failing_env (filename sample_upload))"
    using sample_saved_path by (simp add: failing_env_def sample_env_def IMAGES_DIR_def)
  have written: "file_save failing_env Map.empty ?saved (content sample_upload) = None"
    by (simp add: failing_env_def sample_env_def)
  have ocr: "ocr_image_to_txt failing_env ?fs1 ?saved None
      = Inl (LibraryError (str ''engine failure''))"
    by (simp add: ocr_image_to_txt_def path_exists_def failing_env_def)
  have bytes: "content sample_upload = [137, 80, 78, 71]"
    by (simp add: sample_upload_def)
  from upload_ocr_failure_keeps_image [where req = sample_request and fs = Map.empty,
      OF within field named allowed saved written ocr] bytes
  have "upload_file failing_env Map.empty sample_request =
     (Response (JsonBody [(''error'', JStr (str ''ocr_failed'')),
                          (''detail'', JStr (str ''engine failure''))]) 500, ?fs1) \<and>
   snd (upload_file failing_env Map.empty sample_request) ?saved = Some [137, 80, 78, 71]"
    by simp
  with within field named allowed ocr show ?thesis by blast
qed

text \<open>
  Claim C6 says that for every existing image path \<^verbatim>\<open>ocr_image_to_txt\<close> writes exactly
  one text file and returns its path. With an engine that raises on the image, the call
  on an existing image ends with that exception: it returns nothing, and no file is
  written.
\<close>

theorem ocr_engine_failure_counterexample:
  "path_exists [str ''/srv/app/output/scan.PNG'' \<mapsto> [137, 80, 78, 71]]
     (str ''/srv/app/output/scan.PNG'') \<and>
   ocr_image_to_txt failing_env [str ''/srv/app/output/scan.PNG'' \<mapsto> [137, 80, 78, 71]]
     (str ''/srv/app/output/scan.PNG'') None = Inl (LibraryError (str ''engine failure'')) \<and>
   \<not> (\<exists>written. ocr_image_to_txt failing_env
          [str ''/srv/app/output/scan.PNG'' \<mapsto> [137, 80, 78, 71]]
          (str ''/srv/app/output/scan.PNG'') None = Inr written)"
  by (simp add: ocr_image_to_txt_def path_exists_def failing_env_def)

text \<open>
  Claim C6, amended. For an image path that exists: when the engine raises,
  \<^verbatim>\<open>ocr_image_to_txt\<close> ends with that exception and writes nothing. When the engine
  returns \<open>result\<close>, with \<open>out\<close> the output path (the one given, or by default the image
  path with its suffix replaced by \<^verbatim>\<open>.txt\<close>), the file system changes at \<open>out\<close> only:
  when the flattened result is not empty the file holds the texts joined by newlines and
  the function returns \<open>out\<close> with the texts; when it is empty and \<^verbatim>\<open>json.dumps\<close> returns
  the dump, the file holds the debug header followed by the dump and the function returns
  \<open>out\<close> with the empty list; when it is empty and \<^verbatim>\<open>json.dumps\<close> raises, the function
  ends with that exception and writes nothing.
\<close>

theorem ocr_image_to_txt_writes_one_file:
  assumes "path_exists fs image_path"
  shows "(predict e fs image_path = Inl ex \<longrightarrow>
            ocr_image_to_txt e fs image_path out_path = Inl ex) \<and>
         (predict e fs image_path = Inr result \<and>
          (case out_path of None \<Rightarrow> with_suffix image_path (str ''.txt'') | Some p \<Rightarrow> Inr p)
            = Inr out \<longrightarrow>
            (extract_texts_from_predict result \<noteq> [] \<longrightarrow>
               ocr_image_to_txt e fs image_path out_path
                 = Inr ((out, extract_texts_from_predict result),
                        fs(out \<mapsto> join [10] (extract_texts_from_predict result)))) \<and>
            (extract_texts_from_predict result = [] \<and> json_dumps e result = Inr dump \<longrightarrow>
               ocr_image_to_txt e fs image_path out_path
                 = Inr ((out, []),
                        fs(out \<mapsto>
                           str ''# No text extracted by parser. Raw predict() output below (JSON-ish):''
                           @ [10, 10] @ dump))) \<and>
            (extract_texts_from_predict result = [] \<and> json_dumps e result = Inl ex' \<longrightarrow>
               ocr_image_to_txt e fs image_path out_path = Inl ex') \<and>
            (out_path = None \<longrightarrow>
               out = take (length image_path - length (path_suffix image_path)) image_path
                       @ str ''.txt''))"
proof -
  have raised: "ocr_image_to_txt e fs image_path out_path = Inl ex"
    if "predict e fs image_path = Inl ex"
    using assms that by (simp add: ocr_image_to_txt_def)
  have returned:
    "(extract_texts_from_predict result \<noteq> [] \<longrightarrow>
        ocr_image_to_txt e fs image_path out_path
          = Inr ((out, extract_texts_from_predict result),
                 fs(out \<mapsto> join [10] (extract_texts_from_predict result)))) \<and>
     (extract_texts_from_predict result = [] \<and> json_dumps e result = Inr dump \<longrightarrow>
        ocr_image_to_txt e fs image_path out_path
          = Inr ((out, []),
                 fs(out \<mapsto>
                    str ''# No text extracted by parser. Raw predict() output below (JSON-ish):''
                    @ [10, 10] @ dump))) \<and>
     (extract_texts_from_predict result = [] \<and> json_dumps e result = Inl ex' \<longrightarrow>
        ocr_image_to_txt e fs image_path out_path = Inl ex') \<and>
     (out_path = None \<longrightarrow>
        out = take (length image_path - length (path_suffix image_path)) image_path
                @ str ''.txt'')"
    if engine: "predict e fs image_path = Inr result"
      and target: "(case out_path of None \<Rightarrow> with_suffix image_path (str ''.txt'')
                    | Some p \<Rightarrow> Inr p) = Inr out"
  proof -
    have "out_path = None \<longrightarrow>
        out = take (length image_path - length (path_suffix image_path)) image_path
                @ str ''.txt''"
      using target by (auto simp: with_suffix_def split: if_splits)
    moreover have "extract_texts_from_predict result \<noteq> [] \<longrightarrow>
        ocr_image_to_txt e fs image_path out_path
          = Inr ((out, extract_texts_from_predict result),
                 fs(out \<mapsto> join [10] (extract_texts_from_predict result)))"
      using assms engine target by (simp add: ocr_image_to_txt_def Let_def)
    moreover have "extract_texts_from_predict result = [] \<and> json_dumps e result = Inr dump \<longrightarrow>
        ocr_image_to_txt e fs image_path out_path
          = Inr ((out, []),
                 fs(out \<mapsto>
                    str ''# No text extracted by parser. Raw predict() output below (JSON-ish):''
                    @ [10, 10] @ dump))"
      using assms engine target by (simp add: ocr_image_to_txt_def Let_def debug_header_def)
    moreover have "extract_texts_from_predict result = [] \<and> json_dumps e result = Inl ex' \<longrightarrow>
        ocr_image_to_txt e fs image_path out_path = Inl ex'"
      using assms engine target by (simp add: ocr_image_to_txt_def Let_def)
    ultimately show ?thesis by blast
  qed
  from raised returned show ?thesis by blast
qed

text \<open>
  The amended claim at the saved image \<^verbatim>\<open>scan.PNG\<close>: with the engine that reads two
  lines, with the engine that reads none, and with the engine that raises.
\<close>

theorem ocr_image_to_txt_writes_one_file_witness:
  "path_exists [str ''/srv/app/output/scan.PNG'' \<mapsto> [137, 80, 78, 71]]
     (str ''/srv/app/output/scan.PNG'') \<and>
   ocr_image_to_txt sample_env [str ''/srv/app/output/scan.PNG'' \<mapsto> [137, 80, 78, 71]]
     (str ''/srv/app/output/scan.PNG'') None
     = Inr ((str ''/srv/app/output/scan.txt'', [str ''Hello'', str ''World'']),
            [str ''/srv/app/output/scan.PNG'' \<mapsto> [137, 80, 78, 71],
             str ''/srv/app/output/scan.txt'' \<mapsto> str ''Hello'' @ [10] @ str ''World'']) \<and>
   ocr_image_to_txt blank_env [str ''/srv/app/output/scan.PNG'' \<mapsto> [137, 80, 78, 71]]
     (str ''/srv/app/output/scan.PNG'') None
     = Inr ((str ''/srv/app/output/scan.txt'', []),
            [str ''/srv/app/output/scan.PNG'' \<mapsto> [137, 80, 78, 71],
             str ''/srv/app/output/scan.txt'' \<mapsto>
               str ''# No text extracted by parser. Raw predict() output below (JSON-ish):''
               @ [10, 10] @ str ''[]'']) \<and>
   ocr_image_to_txt failing_env [str ''/srv/app/output/scan.PNG'' \<mapsto> [137, 80, 78, 71]]
     (str ''/srv/app/output/scan.PNG'') None = Inl (LibraryError (str ''engine failure''))"
proof -
  let ?image = "str ''/srv/app/output/scan.PNG''"
  let ?out = "str ''/srv/app/output/scan.txt''"
  let ?fs = "[?image \<mapsto> [137, 80, 78, 71::nat]]"
  have present: "path_exists ?fs ?image"
    by (simp add: path_exists_def)
  have target: "(case None of None \<Rightarrow> with_suffix ?image (str ''.txt'') | Some p \<Rightarrow> Inr p)
      = Inr ?out"
    by (simp add: sample_out_path)
  have engine: "predict sample_env ?fs ?image = Inr sample_result"
    by (simp add: sample_env_def)
  have filled: "extract_texts_from_predict sample_result \<noteq> []"
    by (simp add: sample_result_texts)
  from ocr_image_to_txt_writes_one_file
    [where fs = ?fs and e = sample_env and result = sample_result and out_path = None
      and out = ?out, OF present]
    engine target filled
  have "ocr_image_to_txt sample_env ?fs ?image None
      = Inr ((?out, extract_texts_from_predict sample_result),
             ?fs(?out \<mapsto> join [10] (extract_texts_from_predict sample_result)))"
    by blast
  then have first: "ocr_image_to_txt sample_env ?fs ?image None
      = Inr ((?out, [str ''Hello'', str ''World'']),
             ?fs(?out \<mapsto> str ''Hello'' @ [10] @ str ''World''))"
    by (simp add: sample_result_texts)
  have blank_engine: "predict blank_env ?fs ?image = Inr (PSeq PyList [])"
    by (simp add: blank_env_def sample_env_def)
  have blank_texts: "extract_texts_from_predict (PSeq PyList []) = []"
    by (simp add: extract_texts_from_predict_def)
  have dump: "json_dumps blank_env (PSeq PyList []) = Inr (str ''[]'')"
    by (simp add: blank_env_def sample_env_def)
  from ocr_image_to_txt_writes_one_file
    [where fs = ?fs and e = blank_env and result = "PSeq PyList []" and out_path = None
      and out = ?out and dump = "str ''[]''", OF present]
    blank_engine target blank_texts dump
  have second: "ocr_image_to_txt blank_env ?fs ?image None
      = Inr ((?out, []),
             ?fs(?out \<mapsto>
               str ''# No text extracted by parser. Raw predict() output below (JSON-ish):''
               @ [10, 10] @ str ''[]''))"
    by blast
  have failing: "predict failing_env ?fs ?image = Inl (LibraryError (str ''engine failure''))"
    by (simp add: failing_env_def)
  from ocr_image_to_txt_writes_one_file
    [where fs = ?fs and e = failing_env and out_path = None
      and ex = "LibraryError (str ''engine failure'')", OF present]
    failing
  have third: "ocr_image_to_txt failing_env ?fs ?image None
      = Inl (LibraryError (str ''engine failure''))"
    by blast
  from present first second third show ?thesis by simp
qed

section \<open>The claim about the batch script\<close>




section \<open>The claim about error responses\<close>




end
